theory Spec2Isabelle
  imports Main "HOL-Library.Sublist"
begin

section \<open>Data model (src/types/index.ts)\<close>

text \<open>
  The interfaces of \<^verbatim>\<open>src/types/index.ts\<close> as records. A field whose TypeScript name
  is also a constant of HOL or a keyword of Isabelle carries a prime:
  \<^verbatim>\<open>id\<close>, \<^verbatim>\<open>range\<close>, \<^verbatim>\<open>end\<close>, \<^verbatim>\<open>text\<close>. Offsets and timestamps (\<^verbatim>\<open>number\<close>) are
  integers. A string is a list of code units; a \<^typ>\<open>char\<close> stands for one code unit
  below 256. The optional field \<^verbatim>\<open>replies?\<close> is an option.
\<close>

record TextRange =
  start :: int
  end' :: int
  text' :: string

record Reply =
  id' :: string
  userId :: string
  userName :: string
  userColor :: string
  comment :: string
  timestamp :: int

record Annotation =
  id' :: string
  documentId :: string
  userId :: string
  userName :: string
  userColor :: string
  range' :: TextRange
  comment :: string
  timestamp :: int
  replies :: "Reply list option"

section \<open>The platform's strings, sets and regular expressions\<close>

subsection \<open>String methods\<close>

text \<open>\<^verbatim>\<open>String.prototype.toLowerCase\<close> on code units below 256: the letters A-Z and the
  Latin-1 capitals 192-222 (without the multiplication sign 215) move up by 32.\<close>

definition toLowerCaseChar :: "char \<Rightarrow> char" where
  "toLowerCaseChar c =
     (let n = (of_char c :: nat)
      in if (65 \<le> n \<and> n \<le> 90) \<or> (192 \<le> n \<and> n \<le> 222 \<and> n \<noteq> 215)
         then char_of (n + 32) else c)"

definition toLowerCase :: "string \<Rightarrow> string" where
  "toLowerCase s = map toLowerCaseChar s"

text \<open>\<^verbatim>\<open>s.includes(t)\<close>: \<open>t\<close> occurs in \<open>s\<close> as a contiguous substring.\<close>

fun includes' :: "string \<Rightarrow> string \<Rightarrow> bool" where
  "includes' [] t = (t = [])"
| "includes' (c # cs) t = (prefix t (c # cs) \<or> includes' cs t)"

text \<open>\<^verbatim>\<open>s.slice(a, b)\<close>: a negative index counts from the end, both indices are
  clamped to the string, and an empty span gives the empty string.\<close>

definition slice :: "string \<Rightarrow> int \<Rightarrow> int \<Rightarrow> string" where
  "slice s a b =
     (let len = int (length s);
          from = (if a < 0 then max (len + a) 0 else min a len);
          to = (if b < 0 then max (len + b) 0 else min b len);
          span = max (to - from) 0
      in take (nat span) (drop (nat from) s))"

text \<open>\<^verbatim>\<open>s.trim()\<close> removes white space and line terminators at both ends; below 256
  these are the code units 9-13, 32 and 160.\<close>

definition isWhiteSpace :: "char \<Rightarrow> bool" where
  "isWhiteSpace c = (let n = (of_char c :: nat) in (9 \<le> n \<and> n \<le> 13) \<or> n = 32 \<or> n = 160)"

definition trim :: "string \<Rightarrow> string" where
  "trim s = rev (dropWhile isWhiteSpace (rev (dropWhile isWhiteSpace s)))"

text \<open>\<^verbatim>\<open>s.startsWith(p)\<close>.\<close>

definition startsWith :: "string \<Rightarrow> string \<Rightarrow> bool" where
  "startsWith s p = prefix p s"

subsection \<open>\<^verbatim>\<open>Set<number>\<close>\<close>

text \<open>A \<^verbatim>\<open>Set\<close> keeps its members in insertion order and ignores a member it already
  has; \<^verbatim>\<open>Array.from\<close> reads them in that order.\<close>

definition add :: "int list \<Rightarrow> int \<Rightarrow> int list" where
  "add boundaries x = (if x \<in> set boundaries then boundaries else boundaries @ [x])"

subsection \<open>\<^verbatim>\<open>RegExp\<close> with the flags \<^verbatim>\<open>gi\<close>\<close>

text \<open>
  A global regular expression is known here by what \<^verbatim>\<open>regex.exec(content)\<close> answers
  from a \<^verbatim>\<open>lastIndex\<close>: \<^verbatim>\<open>null\<close>, or the index of the match and the length of
  \<^verbatim>\<open>match[0]\<close>; \<^verbatim>\<open>lastIndex\<close> then becomes the end of the match. The constructor
  \<^verbatim>\<open>new RegExp(pattern, 'gi')\<close> gives such an expression or throws.
\<close>

type_synonym Matcher = "string \<Rightarrow> nat \<Rightarrow> (nat \<times> nat) option"

datatype JSError = SyntaxError

datatype RegExpResult = Compiled Matcher | Threw JSError | UnmodelledPattern

text \<open>
  The viewer takes the constructor as a parameter \<open>RegExp\<close>; what is proved for every
  \<open>RegExp\<close> holds whatever the platform's pattern language does. \<open>RegExp_new\<close> below
  is the platform's constructor on the patterns it models, and says
  \<open>UnmodelledPattern\<close> on the others:
  \<^item> a pattern that starts with a quantifier (\<^verbatim>\<open>*\<close>, \<^verbatim>\<open>+\<close>, \<^verbatim>\<open>?\<close>) has nothing to
    repeat: the constructor throws \<^verbatim>\<open>SyntaxError\<close>;
  \<^item> a pattern of ordinary characters and dots compiles to one atom per character;
  \<^item> any other pattern has another syntax character in it and is not modelled.
\<close>

datatype Atom = PatternCharacter char | Dot

definition syntaxCharacters :: "char list" where
  "syntaxCharacters =
     [CHR ''^'', CHR ''$'', CHR 0x5C, CHR ''.'', CHR ''*'', CHR ''+'', CHR ''?'',
      CHR ''('', CHR '')'', CHR ''['', CHR '']'', CHR ''{'', CHR ''}'', CHR ''|'']"

definition quantifierCharacters :: "char list" where
  "quantifierCharacters = [CHR ''*'', CHR ''+'', CHR ''?'']"

definition atomOf :: "char \<Rightarrow> Atom" where
  "atomOf c = (if c = CHR ''.'' then Dot else PatternCharacter c)"

text \<open>With the flag \<^verbatim>\<open>i\<close> two characters match when they canonicalize to the same code
  unit: the upper-case mapping if it is one code unit (the micro sign 181 and the
  y with diaeresis 255 map above 255, the sharp s 223 maps to two units and stays).
  Like \<open>toLowerCaseChar\<close> this is the platform's mapping on code units below 256
  only.\<close>

definition Canonicalize :: "char \<Rightarrow> nat" where
  "Canonicalize ch =
     (let n = (of_char ch :: nat)
      in if (97 \<le> n \<and> n \<le> 122) \<or> (224 \<le> n \<and> n \<le> 254 \<and> n \<noteq> 247) then n - 32
         else if n = 181 then 924
         else if n = 255 then 376
         else n)"

text \<open>A dot matches every character but a line terminator (10 and 13 below 256).\<close>

fun atomMatches :: "Atom \<Rightarrow> char \<Rightarrow> bool" where
  "atomMatches (PatternCharacter p) c = (Canonicalize p = Canonicalize c)"
| "atomMatches Dot c = (c \<noteq> CHR 0x0A \<and> c \<noteq> CHR 0x0D)"

fun matchAt :: "Atom list \<Rightarrow> string \<Rightarrow> bool" where
  "matchAt [] s = True"
| "matchAt (a # as) [] = False"
| "matchAt (a # as) (c # cs) = (atomMatches a c \<and> matchAt as cs)"

text \<open>
  \<^verbatim>\<open>regex.exec(content)\<close> for a list of atoms: beyond the end of the string the result
  is \<^verbatim>\<open>null\<close>; otherwise the first index at or after \<^verbatim>\<open>lastIndex\<close> where the atoms
  match, with the length of the match.
\<close>

function exec :: "Atom list \<Rightarrow> Matcher" where
  "exec atoms s lastIndex =
     (if lastIndex > length s then None
      else if matchAt atoms (drop lastIndex s) then Some (lastIndex, length atoms)
      else exec atoms s (lastIndex + 1))"
  by pat_completeness auto
termination
  by (relation "measure (\<lambda>(atoms, s, lastIndex). Suc (length s) - lastIndex)") auto

declare exec.simps [simp del]

definition RegExp_new :: "string \<Rightarrow> RegExpResult" where
  "RegExp_new pattern =
     (case pattern of
        c # _ \<Rightarrow>
          if c \<in> set quantifierCharacters then Threw SyntaxError
          else if list_all (\<lambda>c. c = CHR ''.'' \<or> c \<notin> set syntaxCharacters) pattern
               then Compiled (exec (map atomOf pattern))
          else UnmodelledPattern
      | [] \<Rightarrow> Compiled (exec []))"

section \<open>The viewer (src/components/document/document-viewer.tsx)\<close>

subsection \<open>The segment computation \<^verbatim>\<open>renderedContent\<close>\<close>

text \<open>
  What one turn of the segment loop draws: the span and its text, the annotations that
  cover it, the search flag and, when an annotation covers it, the highlight.
\<close>

record Highlight =
  isSelected :: bool
  isFlash :: bool
  primaryAnno :: Annotation
  baseColor :: string
  totalReplies :: nat

record Segment =
  segStart :: int
  segEnd :: int
  segText :: string
  activeAnnos :: "Annotation list"
  isSearchMatch :: bool
  highlight :: "Highlight option"

datatype Rendered = Null | Nodes "Segment list"

text \<open>How a computation ends when it ends: with a value, with an error thrown, or outside
  what \<open>RegExp_new\<close> models.\<close>

datatype 'a Completion = Returns 'a | Throws JSError | Unmodelled

text \<open>
  The \<^verbatim>\<open>while ((match = regex.exec(content)) !== null)\<close> loop. It runs as long as
  \<^verbatim>\<open>exec\<close> finds a match, so it is a partial function: \<open>None\<close> is a loop that never
  ends.
\<close>

partial_function (option) execLoop ::
  "Matcher \<Rightarrow> string \<Rightarrow> nat \<Rightarrow> int list \<Rightarrow> int list option" where
  "execLoop regex content lastIndex boundaries =
     (case regex content lastIndex of
        None \<Rightarrow> Some boundaries
      | Some (index, len) \<Rightarrow>
          execLoop regex content (index + len)
            (add (add boundaries (int index)) (int (index + len))))"

declare execLoop.simps [code]

definition annotationBoundaries :: "string \<Rightarrow> Annotation list \<Rightarrow> int list" where
  "annotationBoundaries content annotations =
     foldl (\<lambda>boundaries a. add (add boundaries (start (range' a))) (end' (range' a)))
       (add (add [] 0) (int (length content))) annotations"

text \<open>\<^verbatim>\<open>activeAnnos.sort((a, b) => b.timestamp - a.timestamp)\<close>: a stable sort, latest
  first.\<close>

definition sortByTimestampDesc :: "Annotation list \<Rightarrow> Annotation list" where
  "sortByTimestampDesc as = sort_key (\<lambda>a. - timestamp a) as"

definition repliesLength :: "Annotation \<Rightarrow> nat" where
  "repliesLength a = (case replies a of None \<Rightarrow> 0 | Some rs \<Rightarrow> length rs)"

definition segment ::
  "string \<Rightarrow> Annotation list \<Rightarrow> string option \<Rightarrow> string option \<Rightarrow> int \<Rightarrow> int \<Rightarrow> Segment" where
  "segment content annotations activeAnnotationId searchTerm s e =
     (let text = slice content s e;
          active = filter (\<lambda>a. s \<ge> start (range' a) \<and> e \<le> end' (range' a)) annotations;
          isMatch = (case searchTerm of
                       None \<Rightarrow> False
                     | Some t \<Rightarrow> length t > 2 \<and> includes' (toLowerCase text) (toLowerCase t))
      in \<lparr> segStart = s, segEnd = e, segText = text, activeAnnos = active,
           isSearchMatch = isMatch,
           highlight =
             (case sortByTimestampDesc active of
                [] \<Rightarrow> None
              | primary # _ \<Rightarrow>
                  let flash = list_ex (\<lambda>a. startsWith (id' a) ''flash-'') active
                  in Some \<lparr> isSelected = list_ex (\<lambda>a. Some (id' a) = activeAnnotationId) active,
                            isFlash = flash,
                            primaryAnno = primary,
                            baseColor = (if flash then ''#10b981'' else userColor primary),
                            totalReplies =
                              foldl (\<lambda>sum a. sum + repliesLength a) 0
                                (sortByTimestampDesc active) \<rparr>) \<rparr>)"

text \<open>The \<^verbatim>\<open>for\<close> loop over the pairs \<^verbatim>\<open>sortedBoundaries[i]\<close>, \<^verbatim>\<open>sortedBoundaries[i+1]\<close>.\<close>

fun segmentsOf ::
  "string \<Rightarrow> Annotation list \<Rightarrow> string option \<Rightarrow> string option \<Rightarrow> int list \<Rightarrow> Segment list" where
  "segmentsOf content annotations activeAnnotationId searchTerm (s # e # rest) =
     segment content annotations activeAnnotationId searchTerm s e
       # segmentsOf content annotations activeAnnotationId searchTerm (e # rest)"
| "segmentsOf content annotations activeAnnotationId searchTerm _ = []"

text \<open>The boundary set after the search scan; \<open>None\<close> when the scan never ends.\<close>

definition boundarySet ::
  "(string \<Rightarrow> RegExpResult) \<Rightarrow> string \<Rightarrow> Annotation list \<Rightarrow> string option
     \<Rightarrow> int list Completion option" where
  "boundarySet RegExp content annotations searchTerm =
     (let boundaries = annotationBoundaries content annotations
      in case searchTerm of
           None \<Rightarrow> Some (Returns boundaries)
         | Some t \<Rightarrow>
             if length t > 2
             then (case RegExp t of
                     Threw e \<Rightarrow> Some (Throws e)
                   | UnmodelledPattern \<Rightarrow> Some Unmodelled
                   | Compiled regex \<Rightarrow>
                       map_option Returns (execLoop regex content 0 boundaries))
             else Some (Returns boundaries))"

definition renderedContent ::
  "(string \<Rightarrow> RegExpResult) \<Rightarrow> string \<Rightarrow> Annotation list \<Rightarrow> string option \<Rightarrow> string option
     \<Rightarrow> Rendered Completion option" where
  "renderedContent RegExp content annotations activeAnnotationId searchTerm =
     (if content = [] then Some (Returns Null)
      else case boundarySet RegExp content annotations searchTerm of
             None \<Rightarrow> None
           | Some Unmodelled \<Rightarrow> Some Unmodelled
           | Some (Throws e) \<Rightarrow> Some (Throws e)
           | Some (Returns boundaries) \<Rightarrow>
               Some (Returns (Nodes
                 (segmentsOf content annotations activeAnnotationId searchTerm
                    (sort boundaries)))))"

text \<open>The segments of a computation that returned them: none when it returned
  \<^verbatim>\<open>null\<close>, threw, or did not return.\<close>

definition producedSegments :: "Rendered Completion option \<Rightarrow> Segment list" where
  "producedSegments r = (case r of Some (Returns (Nodes segs)) \<Rightarrow> segs | _ \<Rightarrow> [])"

subsection \<open>The container and the selection mapper \<^verbatim>\<open>handleSelection\<close>\<close>

text \<open>
  The container \<^verbatim>\<open>div\<close> holds what \<open>renderedContent\<close> returned. Its text nodes, in
  document order, are the text of each segment and, after the text of a highlighted
  segment with replies, the digits of the reply badge
  (\<^verbatim>\<open>{totalReplies > 0 && <span ...>{totalReplies}</span>}\<close> inside the \<^verbatim>\<open>mark\<close>).
\<close>

text \<open>\<^verbatim>\<open>String(n)\<close> for a count: its decimal digits.\<close>

function digits :: "nat \<Rightarrow> string" where
  "digits n = (if n < 10 then [char_of (48 + n)] else digits (n div 10) @ [char_of (48 + n mod 10)])"
  by pat_completeness auto
termination
  by (relation "measure id") auto

declare digits.simps [simp del]

definition badgeNodes :: "Segment \<Rightarrow> string list" where
  "badgeNodes seg =
     (case highlight seg of
        None \<Rightarrow> []
      | Some h \<Rightarrow> if totalReplies h > 0 then [digits (totalReplies h)] else [])"

definition textNodes :: "Rendered \<Rightarrow> string list" where
  "textNodes rendered =
     (case rendered of
        Null \<Rightarrow> []
      | Nodes segs \<Rightarrow> concat (map (\<lambda>seg. segText seg # badgeNodes seg) segs))"

text \<open>\<^verbatim>\<open>containerRef.current\<close>: the text nodes of the mounted container, \<open>None\<close> when
  nothing was rendered into it.\<close>

definition container :: "Rendered Completion option \<Rightarrow> string list option" where
  "container r = (case r of Some (Returns rendered) \<Rightarrow> Some (textNodes rendered) | _ \<Rightarrow> None)"

text \<open>
  What the platform answers about the current selection: \<^verbatim>\<open>selection.isCollapsed\<close>,
  the start of its first range (\<^verbatim>\<open>range.startContainer\<close>, here the index of a text
  node of the container, and \<^verbatim>\<open>range.startOffset\<close>, an offset into that node) and
  \<^verbatim>\<open>selection.toString()\<close>. \<^verbatim>\<open>window.getSelection()\<close> may be \<^verbatim>\<open>null\<close>.
\<close>

record Selection =
  isCollapsed :: bool
  startContainer :: nat
  startOffset :: nat
  selectionText :: string

text \<open>
  \<^verbatim>\<open>preSelectionRange.toString()\<close>: the probe range runs from the start of the container
  to the start of the selection, and its string is the text of every text node before
  the start node followed by the part of the start node before the start offset.
\<close>

definition preSelectionRange :: "string list \<Rightarrow> Selection \<Rightarrow> string" where
  "preSelectionRange nodes sel =
     concat (take (startContainer sel) nodes) @
     (case drop (startContainer sel) nodes of
        [] \<Rightarrow> []
      | node # _ \<Rightarrow> take (startOffset sel) node)"

text \<open>The result is the range handed to \<^verbatim>\<open>onSelectRange\<close>, if any.\<close>

definition handleSelection :: "Selection option \<Rightarrow> string list option \<Rightarrow> TextRange option" where
  "handleSelection selection containerRef =
     (case selection of
        None \<Rightarrow> None
      | Some sel \<Rightarrow>
          (case containerRef of
             None \<Rightarrow> None
           | Some nodes \<Rightarrow>
               if isCollapsed sel then None
               else let start = int (length (preSelectionRange nodes sel));
                        selectedText = selectionText sel;
                        end = start + int (length selectedText)
                    in if length (trim selectedText) > 0
                       then Some \<lparr> start = start, end' = end, text' = selectedText \<rparr>
                       else None))"

section \<open>The persistence service (src/services/document-service.ts)\<close>

text \<open>
  The state the annotation methods work on: the item stored under
  \<^verbatim>\<open>STORAGE_KEY_ANNOS\<close> (absent, or the annotation list that \<^verbatim>\<open>JSON.parse\<close> reads
  back) and the number of \<^verbatim>\<open>storage\<close> events dispatched so far.
\<close>

record Store =
  item :: "Annotation list option"
  dispatched :: nat

text \<open>\<^verbatim>\<open>data ? JSON.parse(data) : []\<close>.\<close>

definition parsed :: "Store \<Rightarrow> Annotation list" where
  "parsed st = (case item st of None \<Rightarrow> [] | Some all \<Rightarrow> all)"

definition sameTuple :: "Annotation \<Rightarrow> Annotation \<Rightarrow> bool" where
  "sameTuple anno a =
     (documentId a = documentId anno \<and> userId a = userId anno \<and>
      start (range' a) = start (range' anno) \<and> end' (range' a) = end' (range' anno))"

definition saveAnnotation :: "Annotation \<Rightarrow> Store \<Rightarrow> Store" where
  "saveAnnotation anno st =
     (let all = parsed st
      in case find (sameTuple anno) all of
           Some exists \<Rightarrow> st
         | None \<Rightarrow> st\<lparr> item := Some (all @ [anno]), dispatched := dispatched st + 1 \<rparr>)"

text \<open>\<^verbatim>\<open>Array.prototype.findIndex\<close>: the first index where the test holds, or \<open>-1\<close>.\<close>

fun findIndex :: "('a \<Rightarrow> bool) \<Rightarrow> 'a list \<Rightarrow> int" where
  "findIndex p [] = - 1"
| "findIndex p (x # xs) =
     (if p x then 0 else (let i = findIndex p xs in if i = - 1 then - 1 else i + 1))"

definition updateAnnotation :: "string \<Rightarrow> string \<Rightarrow> Store \<Rightarrow> Store" where
  "updateAnnotation ident newComment st =
     (let all = parsed st;
          index = findIndex (\<lambda>a. id' a = ident) all
      in if index \<noteq> - 1
         then st\<lparr> item := Some (all[nat index := (all ! nat index)\<lparr> comment := newComment \<rparr>]),
                  dispatched := dispatched st + 1 \<rparr>
         else st)"

definition deleteAnnotation :: "string \<Rightarrow> Store \<Rightarrow> Store" where
  "deleteAnnotation ident st =
     (let all = parsed st;
          filtered = filter (\<lambda>a. id' a \<noteq> ident) all
      in st\<lparr> item := Some filtered, dispatched := dispatched st + 1 \<rparr>)"

section \<open>The active annotation set of the application (src/unnamed/part_000)\<close>

record AppAnnotation = Annotation +
  isTemporary :: "bool option"

text \<open>The state update of the expiry timer in \<^verbatim>\<open>handleFlashInsight\<close> (and of
  \<^verbatim>\<open>handleDeleteAnnotation\<close>): \<^verbatim>\<open>prev => prev.filter(a => a.id !== flashAnno.id)\<close>.\<close>

definition removeFromActiveSet :: "string \<Rightarrow> AppAnnotation list \<Rightarrow> AppAnnotation list" where
  "removeFromActiveSet ident prev = filter (\<lambda>a. id' a \<noteq> ident) prev"

section \<open>The search matches in the words of the specification\<close>

text \<open>
  The specification describes the matches of the search term as its case-insensitive
  literal occurrences in the content, found by a sequential scan, non-overlapping,
  left to right. \<open>literalMatches\<close> follows these words, to be compared with what
  \<open>execLoop\<close> finds.
\<close>

function literalMatches :: "string \<Rightarrow> string \<Rightarrow> nat \<Rightarrow> (nat \<times> nat) list" where
  "literalMatches term content i =
     (if term = [] \<or> i + length term > length content then []
      else if toLowerCase (take (length term) (drop i content)) = toLowerCase term
           then (i, i + length term) # literalMatches term content (i + length term)
      else literalMatches term content (i + 1))"
  by pat_completeness auto
termination
  by (relation "measure (\<lambda>(term, content, i). length content - i)")
     (auto simp: neq_Nil_conv)

declare literalMatches.simps [simp del]

text \<open>The invariant of a range in the data model of the specification:
  \<open>0 \<le> start \<le> end \<le> len(content)\<close>.\<close>

definition withinContent :: "string \<Rightarrow> TextRange \<Rightarrow> bool" where
  "withinContent content r = (0 \<le> start r \<and> start r \<le> end' r \<and> end' r \<le> int (length content))"

section \<open>Auxiliary notions of the proofs\<close>

text \<open>A constructor whose expressions report only matches that lie inside the string
  they are run on, as those of the platform do.\<close>

definition insideContent :: "(string \<Rightarrow> RegExpResult) \<Rightarrow> bool" where
  "insideContent RegExp =
     (\<forall>pattern regex content k i m.
        RegExp pattern = Compiled regex \<longrightarrow> regex content k = Some (i, m) \<longrightarrow> i + m \<le> length content)"

section \<open>Inputs of the scenarios\<close>

definition fixture :: "string \<Rightarrow> int \<Rightarrow> int \<Rightarrow> string \<Rightarrow> Annotation" where
  "fixture ident s e t =
     \<lparr> id' = ident, documentId = ''doc-1'', userId = ''user-1'', userName = ''Alex'',
       userColor = ''#3b82f6'', range' = \<lparr> start = s, end' = e, text' = t \<rparr>,
       comment = ''note'', timestamp = 1000, replies = Some [] \<rparr>"

definition replyFixture :: Reply where
  "replyFixture =
     \<lparr> Reply.id' = ''r1'', Reply.userId = ''user-2'', Reply.userName = ''Sam'',
       Reply.userColor = ''#ef4444'', Reply.comment = ''agreed'', Reply.timestamp = 1500 \<rparr>"

text \<open>Two overlapping annotations: the earlier one without a reply list, the later one
  with one reply.\<close>

text \<open>An annotation over \<open>[0, 3)\<close> with two replies.\<close>

definition repliedAnno :: Annotation where
  "repliedAnno = (fixture ''a3'' 0 3 ''The'')\<lparr> replies := Some [replyFixture, replyFixture] \<rparr>"



section \<open>Segments and the annotations that cover them\<close>

lemma segmentsOf_member:
  "seg \<in> set (segmentsOf content annotations active searchTerm bs) \<Longrightarrow>
   \<exists>s e. seg = segment content annotations active searchTerm s e \<and> (s, e) \<in> set (zip bs (tl bs))"
proof (induction content annotations active searchTerm bs rule: segmentsOf.induct)
  case (1 content annotations active searchTerm s e rest)
  then show ?case by auto
qed simp_all

lemma produced_member:
  assumes "seg \<in> set (producedSegments (renderedContent RegExp content annotations active searchTerm))"
  shows "\<exists>bs s e. boundarySet RegExp content annotations searchTerm = Some (Returns bs) \<and> content \<noteq> [] \<and>
           seg = segment content annotations active searchTerm s e \<and>
           (s, e) \<in> set (zip (sort bs) (tl (sort bs)))"
proof -
  from assms have ne: "content \<noteq> []"
    by (auto simp: producedSegments_def renderedContent_def)
  from assms ne obtain bs where bs: "boundarySet RegExp content annotations searchTerm = Some (Returns bs)"
    and mem: "seg \<in> set (segmentsOf content annotations active searchTerm (sort bs))"
    by (auto simp: producedSegments_def renderedContent_def
             split: option.splits Completion.splits)
  from segmentsOf_member [OF mem] bs ne show ?thesis by blast
qed

lemma segment_fields [simp]:
  "segStart (segment content annotations active searchTerm s e) = s"
  "segEnd (segment content annotations active searchTerm s e) = e"
  "segText (segment content annotations active searchTerm s e) = slice content s e"
  "activeAnnos (segment content annotations active searchTerm s e)
     = filter (\<lambda>a. s \<ge> start (range' a) \<and> e \<le> end' (range' a)) annotations"
  by (simp_all add: segment_def Let_def)

text \<open>
  Claim C2. For every segment the computation produces and every annotation of the input,
  the annotation is among the segment's covering annotations exactly when the segment
  starts at or after the start of the annotation's range and ends at or before its end.
\<close>

theorem covering_iff_contained:
  assumes "seg \<in> set (producedSegments (renderedContent RegExp content annotations active searchTerm))"
    and "a \<in> set annotations"
  shows "a \<in> set (activeAnnos seg) \<longleftrightarrow>
           segStart seg \<ge> start (range' a) \<and> segEnd seg \<le> end' (range' a)"
proof -
  from produced_member [OF assms(1)] obtain s e
    where "seg = segment content annotations active searchTerm s e" by blast
  with assms(2) show ?thesis by simp
qed

theorem covering_iff_contained_witness:
  "segment ''The quick brown fox'' [fixture ''a1'' 4 9 ''quick''] None (Some ''fox'') 4 9
     \<in> set (producedSegments
         (renderedContent RegExp_new ''The quick brown fox'' [fixture ''a1'' 4 9 ''quick''] None (Some ''fox''))) \<and>
   fixture ''a1'' 4 9 ''quick'' \<in> set [fixture ''a1'' 4 9 ''quick''] \<and>
   fixture ''a1'' 4 9 ''quick''
     \<in> set (activeAnnos (segment ''The quick brown fox'' [fixture ''a1'' 4 9 ''quick''] None (Some ''fox'') 4 9))"
proof -
  have h1: "segment ''The quick brown fox'' [fixture ''a1'' 4 9 ''quick''] None (Some ''fox'') 4 9
     \<in> set (producedSegments
         (renderedContent RegExp_new ''The quick brown fox'' [fixture ''a1'' 4 9 ''quick''] None (Some ''fox'')))"
    by code_simp
  have h2: "fixture ''a1'' 4 9 ''quick'' \<in> set [fixture ''a1'' 4 9 ''quick'']"
    by simp
  have r: "start (range' (fixture ''a1'' 4 9 ''quick'')) = 4" "end' (range' (fixture ''a1'' 4 9 ''quick'')) = 9"
    by (simp_all add: fixture_def)
  from covering_iff_contained [OF h1 h2] h1 h2 show ?thesis
    by (simp add: r)
qed

section \<open>The primary annotation and the reply count\<close>







section \<open>The scenario of the quick brown fox\<close>

text \<open>
  Claim C5, as the code has it. The content \<^verbatim>\<open>The quick brown fox\<close> has 19
  characters, so with one annotation over \<open>[4, 9)\<close> and the search term
  \<^verbatim>\<open>fox\<close> the boundaries are 0, 4, 9, 16 and 19 and there are four segments,
  \<open>[0, 4)\<close>, \<open>[4, 9)\<close>, \<open>[9, 16)\<close> and \<open>[16, 19)\<close>. The segment
  \<open>[4, 9)\<close> has exactly one covering annotation and the segment \<open>[16, 19)\<close>, and
  no other, is flagged as a search match.
\<close>

theorem scenario_fox:
  "boundarySet RegExp_new ''The quick brown fox'' [fixture ''a1'' 4 9 ''quick''] (Some ''fox'')
     = Some (Returns [0, 19, 4, 9, 16]) \<and>
   sort [0, 19, 4, 9, 16 :: int] = [0, 4, 9, 16, 19] \<and>
   map (\<lambda>seg. (segStart seg, segEnd seg, length (activeAnnos seg), isSearchMatch seg))
     (producedSegments
        (renderedContent RegExp_new ''The quick brown fox'' [fixture ''a1'' 4 9 ''quick''] active
           (Some ''fox'')))
     = [(0, 4, 0, False), (4, 9, 1, False), (9, 16, 0, False), (16, 19, 0, True)]"
  by code_simp

text \<open>The boundary set has no member 20 and the segments are four, not five.\<close>

theorem scenario_fox_counterexample:
  "boundarySet RegExp_new ''The quick brown fox'' [fixture ''a1'' 4 9 ''quick''] (Some ''fox'')
     = Some (Returns [0, 19, 4, 9, 16]) \<and>
   set [0, 19, 4, 9, 16 :: int] \<noteq> {0, 4, 9, 16, 19, 20} \<and>
   length (producedSegments
        (renderedContent RegExp_new ''The quick brown fox'' [fixture ''a1'' 4 9 ''quick''] None
           (Some ''fox'')))
     \<noteq> 5"
  by code_simp

section \<open>The search term as a pattern\<close>

text \<open>
  Claim C1 says that for every content, every list of annotations with ranges within the
  content and any search term the computation returns segments that partition the
  content. The code fails it: the search term reaches the pattern compiler as the user
  typed it, and a term that starts with a quantifier, such as \<^verbatim>\<open>???\<close>, makes
  \<^verbatim>\<open>new RegExp\<close> throw while the boundaries are collected. For the content
  \<^verbatim>\<open>Why???\<close> the computation returns no segments at all. (What does hold of the
  partition is \<open>partition_when_returned\<close> and \<open>partition_for_modelled_search\<close>
  below.)
\<close>

theorem search_term_throws:
  "renderedContent RegExp_new ''Why???'' [] None (Some ''???'') = Some (Throws SyntaxError)"
  by code_simp

text \<open>
  Claim C3 says that the boundaries added for a search term of more than two characters
  are the starts and ends of its case-insensitive literal occurrences in the content. The
  code fails it: the scan reads the search term as a pattern, not as a literal. For the
  term \<^verbatim>\<open>a.c\<close> and the content \<^verbatim>\<open>xabcx\<close> it finds \<^verbatim>\<open>abc\<close> and adds the
  boundaries 1 and 4, although the term has no literal occurrence in the content; the
  search flag of the same computation compares the term literally and flags no segment.
\<close>

theorem search_term_is_pattern:
  "boundarySet RegExp_new ''xabcx'' [] (Some ''a.c'') = Some (Returns [0, 5, 1, 4]) \<and>
   literalMatches ''a.c'' ''xabcx'' 0 = [] \<and>
   map (\<lambda>seg. (segStart seg, segEnd seg, isSearchMatch seg))
     (producedSegments (renderedContent RegExp_new ''xabcx'' [] None (Some ''a.c'')))
     = [(0, 1, False), (1, 4, False), (4, 5, False)]"
  by code_simp

section \<open>What \<^verbatim>\<open>exec\<close> finds\<close>

lemma matchAt_length: "matchAt regex s \<Longrightarrow> length regex \<le> length s"
  by (induction regex s rule: matchAt.induct) auto

lemma exec_Some:
  "exec regex c lastIndex = Some (i, m) \<Longrightarrow>
     m = length regex \<and> lastIndex \<le> i \<and> i \<le> length c \<and> matchAt regex (drop i c) \<and>
     (\<forall>j. lastIndex \<le> j \<and> j < i \<longrightarrow> \<not> matchAt regex (drop j c))"
proof (induction regex c lastIndex rule: exec.induct)
  case (1 regex s lastIndex)
  show ?case
  proof (cases "lastIndex > length s")
    case True
    with "1.prems" show ?thesis by (simp add: exec.simps)
  next
    case le: False
    show ?thesis
    proof (cases "matchAt regex (drop lastIndex s)")
      case True
      with le "1.prems" have "i = lastIndex" "m = length regex"
        by (simp_all add: exec.simps [of regex s lastIndex])
      with le True show ?thesis by auto
    next
      case False
      with le "1.prems" have "exec regex s (lastIndex + 1) = Some (i, m)"
        by (simp add: exec.simps [of regex s lastIndex])
      from "1.IH" [OF le False this]
      have ih: "m = length regex" "lastIndex + 1 \<le> i" "i \<le> length s"
        "matchAt regex (drop i s)"
        "\<forall>j. lastIndex + 1 \<le> j \<and> j < i \<longrightarrow> \<not> matchAt regex (drop j s)"
        by auto
      have "\<forall>j. lastIndex \<le> j \<and> j < i \<longrightarrow> \<not> matchAt regex (drop j s)"
      proof (intro allI impI)
        fix j
        assume "lastIndex \<le> j \<and> j < i"
        then have "j = lastIndex \<or> (lastIndex + 1 \<le> j \<and> j < i)" by arith
        with False ih(5) show "\<not> matchAt regex (drop j s)" by blast
      qed
      with ih show ?thesis by simp
    qed
  qed
qed

section \<open>The boundaries and the segments between them\<close>

lemma set_add [simp]: "set (add boundaries x) = insert x (set boundaries)"
  by (auto simp: add_def)

lemma distinct_add [simp]: "distinct boundaries \<Longrightarrow> distinct (add boundaries x)"
  by (simp add: add_def)

lemma set_foldl_annotations:
  "set (foldl (\<lambda>boundaries a. add (add boundaries (start (range' a))) (end' (range' a))) bs annotations)
     = set bs \<union> (\<Union>a\<in>set annotations. {start (range' a), end' (range' a)})"
  by (induction annotations arbitrary: bs) auto

lemma distinct_foldl_annotations:
  "distinct bs \<Longrightarrow>
   distinct (foldl (\<lambda>boundaries a. add (add boundaries (start (range' a))) (end' (range' a))) bs annotations)"
  by (induction annotations arbitrary: bs) auto

lemma set_annotationBoundaries:
  "set (annotationBoundaries content annotations)
     = {0, int (length content)} \<union> (\<Union>a\<in>set annotations. {start (range' a), end' (range' a)})"
  by (auto simp: annotationBoundaries_def set_foldl_annotations)

lemma distinct_annotationBoundaries: "distinct (annotationBoundaries content annotations)"
  by (simp add: annotationBoundaries_def distinct_foldl_annotations)

section \<open>The partition of the content\<close>

text \<open>The matches of an expression lie inside the string it is run on.\<close>

lemma exec_inside:
  assumes "exec atoms c lastIndex = Some (i, m)"
  shows "i + m \<le> length c"
proof -
  from exec_Some [OF assms] have "m = length atoms" "i \<le> length c" "matchAt atoms (drop i c)"
    by auto
  with matchAt_length [of atoms "drop i c"] show ?thesis by auto
qed

lemma execLoop_boundaries_aux:
  assumes "execLoop regex content lastIndex boundaries = Some result"
  shows "(\<forall>k i m. regex content k = Some (i, m) \<longrightarrow> i + m \<le> length content) \<longrightarrow>
         distinct boundaries \<longrightarrow>
         distinct result \<and> set boundaries \<subseteq> set result \<and>
         (\<forall>x\<in>set result. x \<in> set boundaries \<or> (0 \<le> x \<and> x \<le> int (length content)))"
  using assms
proof (induction regex content lastIndex boundaries result
    rule: execLoop.raw_induct [rotated 1, consumes 1, case_names step])
  case (step loop regex content lastIndex boundaries result)
  show ?case
  proof (intro impI)
    assume inside: "\<forall>k i m. regex content k = Some (i, m) \<longrightarrow> i + m \<le> length content"
      and dist: "distinct boundaries"
    show "distinct result \<and> set boundaries \<subseteq> set result \<and>
         (\<forall>x\<in>set result. x \<in> set boundaries \<or> (0 \<le> x \<and> x \<le> int (length content)))"
    proof (cases "regex content lastIndex")
      case None
      with step.hyps have "result = boundaries" by simp
      with dist show ?thesis by simp
    next
      case (Some r)
      obtain i m where r: "r = (i, m)" by (cases r)
      let ?bs = "add (add boundaries (int i)) (int (i + m))"
      from Some r step.hyps have call: "loop regex content (i + m) ?bs = Some result"
        by simp
      from dist have "distinct ?bs" by simp
      with step.IH [OF call] inside
      have ih: "distinct result" "set ?bs \<subseteq> set result"
        "\<forall>x\<in>set result. x \<in> set ?bs \<or> (0 \<le> x \<and> x \<le> int (length content))"
        by auto
      from Some r inside have "i + m \<le> length content" by blast
      then have "0 \<le> int i \<and> int i \<le> int (length content) \<and>
                 0 \<le> int (i + m) \<and> int (i + m) \<le> int (length content)"
        by simp
      with ih show ?thesis by auto
    qed
  qed
qed

lemma execLoop_boundaries:
  assumes "execLoop regex content lastIndex boundaries = Some result"
    and "\<forall>k i m. regex content k = Some (i, m) \<longrightarrow> i + m \<le> length content"
    and "distinct boundaries"
  shows "distinct result \<and> set boundaries \<subseteq> set result \<and>
         (\<forall>x\<in>set result. x \<in> set boundaries \<or> (0 \<le> x \<and> x \<le> int (length content)))"
  using execLoop_boundaries_aux [OF assms(1)] assms(2,3) by blast

text \<open>The scan of a non-empty list of atoms ends: every match moves \<^verbatim>\<open>lastIndex\<close> on.\<close>

lemma execLoop_returns:
  assumes "atoms \<noteq> []"
  shows "\<exists>result. execLoop (exec atoms) content lastIndex boundaries = Some result"
proof (induction "Suc (length content) - lastIndex" arbitrary: lastIndex boundaries rule: less_induct)
  case less
  show ?case
  proof (cases "exec atoms content lastIndex")
    case None
    then show ?thesis by (simp add: execLoop.simps [of "exec atoms" content lastIndex])
  next
    case (Some r)
    obtain i m where r: "r = (i, m)" by (cases r)
    from exec_Some [of atoms content lastIndex i m] Some r assms
    have "m = length atoms" "lastIndex \<le> i" "i \<le> length content" "0 < m" by auto
    then have "Suc (length content) - (i + m) < Suc (length content) - lastIndex" by arith
    from less [OF this] obtain result where
      "execLoop (exec atoms) content (i + m)
         (add (add boundaries (int i)) (int (i + m))) = Some result"
      by blast
    with Some r show ?thesis
      by (simp add: execLoop.simps [of "exec atoms" content lastIndex])
  qed
qed

lemma segmentsOf_ends:
  "map segStart (segmentsOf content annotations active searchTerm bs) = butlast bs \<and>
   map segEnd (segmentsOf content annotations active searchTerm bs) = tl bs"
  by (induction content annotations active searchTerm bs rule: segmentsOf.induct) auto

lemma insideContent_RegExp_new: "insideContent RegExp_new"
  unfolding insideContent_def
proof (intro allI impI)
  fix pattern regex content k i m
  assume c: "RegExp_new pattern = Compiled regex" and m: "regex content k = Some (i, m)"
  from c have "regex = exec (map atomOf pattern)"
    by (auto simp: RegExp_new_def split: list.splits if_splits)
  with m exec_inside show "i + m \<le> length content" by blast
qed

lemma sorted_le_last: "sorted xs \<Longrightarrow> x \<in> set xs \<Longrightarrow> x \<le> (last xs :: int)"
  by (induction xs) auto

lemma sorted_hd_le: "sorted xs \<Longrightarrow> x \<in> set xs \<Longrightarrow> (hd xs :: int) \<le> x"
  by (cases xs) auto

lemma sorted_ends:
  assumes "sorted xs" and "0 \<in> set xs" and "L \<in> set xs"
    and "\<forall>x\<in>set xs. 0 \<le> x \<and> x \<le> (L :: int)" and "0 < L"
  shows "hd xs = 0 \<and> last xs = L \<and> 2 \<le> length xs"
proof -
  from assms(2) have ne: "xs \<noteq> []" by auto
  then have "hd xs \<in> set xs" "last xs \<in> set xs" by simp_all
  with assms(4) have "0 \<le> hd xs" "last xs \<le> L" by auto
  with sorted_hd_le [OF assms(1,2)] sorted_le_last [OF assms(1,3)]
  have ends: "hd xs = 0" "last xs = L" by auto
  have "2 \<le> length xs"
  proof (cases xs)
    case Nil
    with ne show ?thesis by simp
  next
    case (Cons y ys)
    with ends assms(5) have "ys \<noteq> []" by auto
    with Cons show ?thesis by (cases ys) auto
  qed
  with ends show ?thesis by simp
qed

lemma strictly_sorted_nth:
  assumes "sorted xs" and "distinct xs" and "Suc i < length xs"
  shows "xs ! i < (xs ! Suc i :: int)"
proof -
  from assms(1,3) have "xs ! i \<le> xs ! Suc i" by (simp add: sorted_nth_mono)
  moreover from assms(2,3) have "xs ! i \<noteq> xs ! Suc i" by (simp add: nth_eq_iff_index_eq)
  ultimately show ?thesis by simp
qed

lemma boundarySet_properties:
  assumes bs: "boundarySet RegExp content annotations searchTerm = Some (Returns bs)"
    and inside: "insideContent RegExp"
    and range: "\<forall>a\<in>set annotations. withinContent content (range' a)"
  shows "distinct bs \<and> 0 \<in> set bs \<and> int (length content) \<in> set bs \<and>
         (\<forall>x\<in>set bs. 0 \<le> x \<and> x \<le> int (length content))"
proof -
  let ?ab = "annotationBoundaries content annotations"
  let ?len = "int (length content)"
  have ab1: "distinct ?ab" by (rule distinct_annotationBoundaries)
  have ab2: "0 \<in> set ?ab" "?len \<in> set ?ab"
    by (simp_all add: set_annotationBoundaries)
  have ab3: "\<forall>x\<in>set ?ab. 0 \<le> x \<and> x \<le> ?len"
    using range unfolding set_annotationBoundaries withinContent_def by auto
  show ?thesis
  proof (cases searchTerm)
    case None
    with bs have "bs = ?ab" by (simp add: boundarySet_def Let_def)
    with ab1 ab2 ab3 show ?thesis by simp
  next
    case (Some t)
    show ?thesis
    proof (cases "length t > 2")
      case False
      with Some bs have "bs = ?ab" by (simp add: boundarySet_def Let_def)
      with ab1 ab2 ab3 show ?thesis by simp
    next
      case True
      with Some bs obtain regex where c: "RegExp t = Compiled regex"
        and loop: "execLoop regex content 0 ?ab = Some bs"
        by (cases "RegExp t") (auto simp: boundarySet_def Let_def)
      from inside c have "\<forall>k i m. regex content k = Some (i, m) \<longrightarrow> i + m \<le> length content"
        unfolding insideContent_def by blast
      from execLoop_boundaries [OF loop this ab1]
      have "distinct bs" "set ?ab \<subseteq> set bs"
        "\<forall>x\<in>set bs. x \<in> set ?ab \<or> (0 \<le> x \<and> x \<le> ?len)" by auto
      with ab2 ab3 show ?thesis by blast
    qed
  qed
qed

text \<open>
  Where the computation returns segments and the annotation ranges lie within the
  content, the segments partition the content: the first starts at 0, the last ends at
  the length of the content, each is non-empty and each starts where the one before
  ends.
\<close>

lemma partition_when_returned:
  assumes ret: "renderedContent RegExp content annotations active searchTerm = Some (Returns (Nodes segs))"
    and inside: "insideContent RegExp"
    and range: "\<forall>a\<in>set annotations. withinContent content (range' a)"
  shows "segs \<noteq> [] \<and> segStart (hd segs) = 0 \<and> segEnd (last segs) = int (length content) \<and>
         (\<forall>i<length segs. segStart (segs ! i) < segEnd (segs ! i)) \<and>
         (\<forall>i. Suc i < length segs \<longrightarrow> segEnd (segs ! i) = segStart (segs ! Suc i))"
proof -
  from ret have ne: "content \<noteq> []"
    by (cases "content = []") (simp_all add: renderedContent_def)
  from ret ne obtain bs where bs: "boundarySet RegExp content annotations searchTerm = Some (Returns bs)"
    and segs: "segs = segmentsOf content annotations active searchTerm (sort bs)"
    by (simp add: renderedContent_def split: option.splits Completion.splits)
  let ?len = "int (length content)"
  define sb where "sb = sort bs"
  from boundarySet_properties [OF bs inside range]
  have sb: "sorted sb" "distinct sb" "0 \<in> set sb" "?len \<in> set sb"
    "\<forall>x\<in>set sb. 0 \<le> x \<and> x \<le> ?len"
    by (simp_all add: sb_def)
  from ne have "0 < ?len" by simp
  from sorted_ends [OF sb(1,3,4,5) this]
  have ends: "hd sb = 0" "last sb = ?len" and two: "2 \<le> length sb" by auto
  have starts: "map segStart segs = butlast sb" and stops: "map segEnd segs = tl sb"
    using segmentsOf_ends [of content annotations active searchTerm sb] by (simp_all add: segs sb_def)
  from starts have "length (map segStart segs) = length (butlast sb)" by simp
  then have len: "length segs = length sb - 1" by simp
  with two have segsne: "segs \<noteq> []" by auto
  have nth_start: "segStart (segs ! i) = sb ! i" if "i < length segs" for i
  proof -
    from that have "segStart (segs ! i) = map segStart segs ! i" by simp
    also from that len have "\<dots> = sb ! i" unfolding starts by (simp add: nth_butlast)
    finally show ?thesis .
  qed
  have nth_end: "segEnd (segs ! i) = sb ! Suc i" if "i < length segs" for i
  proof -
    from that have "segEnd (segs ! i) = map segEnd segs ! i" by simp
    also from that len have "\<dots> = sb ! Suc i" unfolding stops by (simp add: nth_tl)
    finally show ?thesis .
  qed
  from segsne two have "segStart (hd segs) = sb ! 0"
    using nth_start [of 0] by (simp add: hd_conv_nth)
  moreover from two have "sb ! 0 = hd sb" by (cases sb) auto
  ultimately have first: "segStart (hd segs) = 0" using ends by simp
  from segsne have "segEnd (last segs) = sb ! Suc (length segs - 1)"
    using nth_end [of "length segs - 1"] by (simp add: last_conv_nth)
  moreover from len two have "Suc (length segs - 1) = length sb - 1" by simp
  moreover from two have "sb ! (length sb - 1) = last sb"
    by (cases "sb = []") (simp_all add: last_conv_nth)
  ultimately have final: "segEnd (last segs) = ?len" using ends by simp
  have nonempty: "\<forall>i<length segs. segStart (segs ! i) < segEnd (segs ! i)"
  proof (intro allI impI)
    fix i assume i: "i < length segs"
    with len have "Suc i < length sb" by simp
    from strictly_sorted_nth [OF sb(1,2) this] nth_start [OF i] nth_end [OF i]
    show "segStart (segs ! i) < segEnd (segs ! i)" by simp
  qed
  have contiguous: "\<forall>i. Suc i < length segs \<longrightarrow> segEnd (segs ! i) = segStart (segs ! Suc i)"
  proof (intro allI impI)
    fix i assume i: "Suc i < length segs"
    then have "i < length segs" by simp
    from nth_end [OF this] nth_start [OF i]
    show "segEnd (segs ! i) = segStart (segs ! Suc i)" by simp
  qed
  from segsne first final nonempty contiguous show ?thesis by blast
qed

text \<open>
  The computation returns segments for a non-empty content when there is no search, when
  the search term has at most two characters, and when the term is a pattern of ordinary
  characters and dots.
\<close>

lemma renders_when_modelled:
  assumes "content \<noteq> []"
    and "searchTerm = None \<or>
         (\<exists>t. searchTerm = Some t \<and>
              (length t \<le> 2 \<or> list_all (\<lambda>c. c = CHR ''.'' \<or> c \<notin> set syntaxCharacters) t))"
  shows "\<exists>segs. renderedContent RegExp_new content annotations active searchTerm
           = Some (Returns (Nodes segs))"
proof -
  have "\<exists>bs. boundarySet RegExp_new content annotations searchTerm = Some (Returns bs)"
  proof (cases searchTerm)
    case None
    then show ?thesis by (simp add: boundarySet_def Let_def)
  next
    case (Some t)
    show ?thesis
    proof (cases "length t > 2")
      case False
      with Some show ?thesis by (simp add: boundarySet_def Let_def)
    next
      case True
      with Some assms(2)
      have plain: "list_all (\<lambda>c. c = CHR ''.'' \<or> c \<notin> set syntaxCharacters) t" by auto
      from True obtain c cs where t: "t = c # cs" by (cases t) auto
      with plain have "c = CHR ''.'' \<or> c \<notin> set syntaxCharacters" by simp
      then have "c \<notin> set quantifierCharacters"
        by (auto simp: syntaxCharacters_def quantifierCharacters_def)
      with plain have new: "RegExp_new t = Compiled (exec (map atomOf t))"
        unfolding RegExp_new_def t by simp
      from t have "map atomOf t \<noteq> []" by simp
      from execLoop_returns [OF this] obtain bs where
        "execLoop (exec (map atomOf t)) content 0 (annotationBoundaries content annotations) = Some bs"
        by blast
      with Some True new show ?thesis by (simp add: boundarySet_def Let_def)
    qed
  qed
  with assms(1) show ?thesis by (auto simp: renderedContent_def)
qed

text \<open>
  So for these search terms and annotation ranges within the content, the computation
  returns segments that partition the content.
\<close>

lemma partition_for_modelled_search:
  assumes "content \<noteq> []"
    and "\<forall>a\<in>set annotations. withinContent content (range' a)"
    and "searchTerm = None \<or>
         (\<exists>t. searchTerm = Some t \<and>
              (length t \<le> 2 \<or> list_all (\<lambda>c. c = CHR ''.'' \<or> c \<notin> set syntaxCharacters) t))"
  shows "\<exists>segs. renderedContent RegExp_new content annotations active searchTerm
             = Some (Returns (Nodes segs)) \<and>
           segs \<noteq> [] \<and> segStart (hd segs) = 0 \<and> segEnd (last segs) = int (length content) \<and>
           (\<forall>i<length segs. segStart (segs ! i) < segEnd (segs ! i)) \<and>
           (\<forall>i. Suc i < length segs \<longrightarrow> segEnd (segs ! i) = segStart (segs ! Suc i))"
proof -
  from renders_when_modelled [OF assms(1,3)] obtain segs where
    ret: "renderedContent RegExp_new content annotations active searchTerm = Some (Returns (Nodes segs))"
    by blast
  from partition_when_returned [OF ret insideContent_RegExp_new assms(2)] ret
  show ?thesis by blast
qed

section \<open>The search flag\<close>

text \<open>
  With a search term, the flag of a produced segment says that the term has more than
  two characters and the lower-cased text of the segment contains the lower-cased term,
  whatever the scan found.
\<close>

lemma isSearchMatch_includes:
  assumes "seg \<in> set (producedSegments (renderedContent RegExp content annotations active (Some t)))"
  shows "isSearchMatch seg \<longleftrightarrow>
           length t > 2 \<and> includes' (toLowerCase (segText seg)) (toLowerCase t)"
proof -
  from produced_member [OF assms] obtain s e
    where "seg = segment content annotations active (Some t) s e" by blast
  then show ?thesis by (simp add: segment_def Let_def)
qed

text \<open>
  Claim C4 says that with a search term of more than two characters a segment is flagged
  exactly when its text equals a found match or the segment lies within a found match.
  The code fails it where an annotation boundary cuts a match. For the content
  \<^verbatim>\<open>The quick brown fox\<close>, an annotation over \<open>[17, 19)\<close> and the search term
  \<^verbatim>\<open>fox\<close> the scan finds the match \<open>[16, 19)\<close> and adds its boundaries, the segments
  \<open>[16, 17)\<close> and \<open>[17, 19)\<close> lie within that match, and no segment is flagged: the
  flag is computed from the text of the segment, not from the matches the scan found.
\<close>

theorem searchMatch_flag_lost:
  "exec (map atomOf ''fox'') ''The quick brown fox'' 0 = Some (16, 3) \<and>
   boundarySet RegExp_new ''The quick brown fox'' [fixture ''a1'' 17 19 ''ox''] (Some ''fox'')
     = Some (Returns [0, 19, 17, 16]) \<and>
   map (\<lambda>seg. (segStart seg, segEnd seg, segText seg, isSearchMatch seg))
     (producedSegments
        (renderedContent RegExp_new ''The quick brown fox'' [fixture ''a1'' 17 19 ''ox''] None
           (Some ''fox'')))
     = [(0, 16, ''The quick brown '', False), (16, 17, ''f'', False), (17, 19, ''ox'', False)]"
  by code_simp

section \<open>The selection mapper\<close>

text \<open>
  With a selection and a mounted container, the mapper emits a range exactly when the
  selection is not collapsed and its trimmed text is not empty; the range starts at the
  length of the text of the probe range, ends at the start plus the length of the
  selected text, and carries the selected text.
\<close>

lemma handleSelection_emits_iff:
  "(handleSelection (Some sel) (Some nodes) \<noteq> None \<longleftrightarrow>
      \<not> isCollapsed sel \<and> trim (selectionText sel) \<noteq> []) \<and>
   (handleSelection (Some sel) (Some nodes) = Some r \<longrightarrow>
      start r = int (length (preSelectionRange nodes sel)) \<and>
      end' r = start r + int (length (selectionText sel)) \<and>
      text' r = selectionText sel)"
proof (intro conjI impI)
  show "handleSelection (Some sel) (Some nodes) \<noteq> None \<longleftrightarrow>
      \<not> isCollapsed sel \<and> trim (selectionText sel) \<noteq> []"
    by (simp add: handleSelection_def Let_def)
next
  assume "handleSelection (Some sel) (Some nodes) = Some r"
  then have r: "r = \<lparr> start = int (length (preSelectionRange nodes sel)),
      end' = int (length (preSelectionRange nodes sel)) + int (length (selectionText sel)),
      text' = selectionText sel \<rparr>"
    by (simp add: handleSelection_def Let_def split: if_splits)
  show "start r = int (length (preSelectionRange nodes sel))"
    and "end' r = start r + int (length (selectionText sel))"
    and "text' r = selectionText sel"
    by (simp_all add: r)
qed

text \<open>
  Claim C7 says that the range the mapper emits starts at the number of characters that
  precede the selection, so that a selection of the characters \<open>[5, 12)\<close> of a known
  content gives start 5, end 12 and the slice of the content between them. The code fails
  it where a reply badge precedes the selection. For the content
  \<^verbatim>\<open>The quick brown fox\<close> and an annotation over \<open>[0, 3)\<close> with two replies, the
  container holds the text nodes \<^verbatim>\<open>The\<close>, the badge \<^verbatim>\<open>2\<close> and
  \<^verbatim>\<open> quick brown fox\<close>. The characters \<open>[5, 12)\<close> of the content are the characters
  \<open>[2, 9)\<close> of the third node; the probe range before them also holds the digit of the
  badge, and the mapper emits start 6 and end 13 with the text of the content's slice
  from 5 to 12.
\<close>

theorem selection_shifted_by_badge:
  "map (\<lambda>seg. (segStart seg, segEnd seg))
     (producedSegments (renderedContent RegExp_new ''The quick brown fox'' [repliedAnno] None None))
     = [(0, 3), (3, 19)] \<and>
   container (renderedContent RegExp_new ''The quick brown fox'' [repliedAnno] None None)
     = Some [''The'', ''2'', '' quick brown fox''] \<and>
   slice ''The quick brown fox'' 5 12 = ''uick br'' \<and>
   take 7 (drop 2 '' quick brown fox'') = ''uick br'' \<and>
   handleSelection
     (Some \<lparr> isCollapsed = False, startContainer = 2, startOffset = 2,
             selectionText = ''uick br'' \<rparr>)
     (container (renderedContent RegExp_new ''The quick brown fox'' [repliedAnno] None None))
     = Some \<lparr> start = 6, end' = 13, text' = ''uick br'' \<rparr> \<and>
   slice ''The quick brown fox'' 6 13 = ''ick bro''"
  by code_simp

section \<open>The duplicate guard of \<^verbatim>\<open>saveAnnotation\<close>\<close>

lemma parsed_simps [simp]:
  "parsed (st\<lparr> item := Some xs \<rparr>) = xs"
  "parsed (st\<lparr> dispatched := n \<rparr>) = parsed st"
  by (simp_all add: parsed_def)

lemma find_None_sameTuple: "find (sameTuple anno) xs = None \<longleftrightarrow> (\<forall>a\<in>set xs. \<not> sameTuple anno a)"
  by (auto simp: find_None_iff)

lemma sameTuple_trans: "sameTuple a b \<Longrightarrow> sameTuple b c = sameTuple a c"
  by (auto simp: sameTuple_def)

lemma sameTuple_refl [simp]: "sameTuple a a"
  by (simp add: sameTuple_def)

text \<open>
  Claim C6. If the store already holds an annotation with the same document, user, range
  start and range end as the one submitted, \<open>saveAnnotation\<close> changes nothing: the
  stored item stays and no event is dispatched. So a second save with the same tuple
  leaves the store as the first save left it, and a store that had no annotation of that
  tuple holds exactly one afterwards, the first.
\<close>

theorem saveAnnotation_duplicate_guard:
  "((\<exists>a\<in>set (parsed st). sameTuple anno a) \<longrightarrow> saveAnnotation anno st = st) \<and>
   (sameTuple anno anno2 \<longrightarrow>
      saveAnnotation anno2 (saveAnnotation anno st) = saveAnnotation anno st) \<and>
   (sameTuple anno anno2 \<and> \<not> (\<exists>a\<in>set (parsed st). sameTuple anno a) \<longrightarrow>
      filter (sameTuple anno) (parsed (saveAnnotation anno2 (saveAnnotation anno st))) = [anno])"
proof (intro conjI impI)
  assume "\<exists>a\<in>set (parsed st). sameTuple anno a"
  then have "find (sameTuple anno) (parsed st) \<noteq> None"
    by (auto simp: find_None_iff)
  then show "saveAnnotation anno st = st"
    by (auto simp: saveAnnotation_def)
next
  assume same: "sameTuple anno anno2"
  have "\<exists>a\<in>set (parsed (saveAnnotation anno st)). sameTuple anno2 a"
  proof (cases "find (sameTuple anno) (parsed st)")
    case None
    then have "parsed (saveAnnotation anno st) = parsed st @ [anno]"
      by (simp add: saveAnnotation_def)
    with same show ?thesis by (auto simp: sameTuple_def)
  next
    case (Some a)
    then have "a \<in> set (parsed st)" "sameTuple anno a"
      by (auto simp: find_Some_iff)
    moreover from Some have "saveAnnotation anno st = st"
      by (simp add: saveAnnotation_def)
    ultimately show ?thesis using same by (auto simp: sameTuple_def)
  qed
  then have "find (sameTuple anno2) (parsed (saveAnnotation anno st)) \<noteq> None"
    by (auto simp: find_None_iff)
  then show "saveAnnotation anno2 (saveAnnotation anno st) = saveAnnotation anno st"
    by (auto simp: saveAnnotation_def[of anno2])
next
  assume a: "sameTuple anno anno2 \<and> \<not> (\<exists>a\<in>set (parsed st). sameTuple anno a)"
  then have none: "find (sameTuple anno) (parsed st) = None"
    by (auto simp: find_None_iff)
  then have first: "parsed (saveAnnotation anno st) = parsed st @ [anno]"
    by (simp add: saveAnnotation_def)
  then have "find (sameTuple anno2) (parsed (saveAnnotation anno st)) \<noteq> None"
    using a by (auto simp: find_None_iff sameTuple_def)
  then have "saveAnnotation anno2 (saveAnnotation anno st) = saveAnnotation anno st"
    by (auto simp: saveAnnotation_def[of anno2])
  moreover have "filter (sameTuple anno) (parsed st) = []"
    using a by (auto simp: filter_empty_conv)
  ultimately show "filter (sameTuple anno) (parsed (saveAnnotation anno2 (saveAnnotation anno st))) = [anno]"
    using first by simp
qed

theorem saveAnnotation_duplicate_guard_witness:
  "(\<exists>a\<in>set (parsed \<lparr> item = Some [fixture ''a1'' 4 9 ''quick''], dispatched = 1 \<rparr>).
      sameTuple (fixture ''a2'' 4 9 ''quick'') a) \<and>
   saveAnnotation (fixture ''a2'' 4 9 ''quick'') \<lparr> item = Some [fixture ''a1'' 4 9 ''quick''], dispatched = 1 \<rparr>
     = \<lparr> item = Some [fixture ''a1'' 4 9 ''quick''], dispatched = 1 \<rparr> \<and>
   sameTuple (fixture ''a1'' 4 9 ''quick'') (fixture ''a2'' 4 9 ''quick'') \<and>
   \<not> (\<exists>a\<in>set (parsed \<lparr> item = None, dispatched = 0 \<rparr>). sameTuple (fixture ''a1'' 4 9 ''quick'') a) \<and>
   saveAnnotation (fixture ''a2'' 4 9 ''quick'') (saveAnnotation (fixture ''a1'' 4 9 ''quick'') \<lparr> item = None, dispatched = 0 \<rparr>)
     = saveAnnotation (fixture ''a1'' 4 9 ''quick'') \<lparr> item = None, dispatched = 0 \<rparr> \<and>
   filter (sameTuple (fixture ''a1'' 4 9 ''quick''))
     (parsed (saveAnnotation (fixture ''a2'' 4 9 ''quick'')
        (saveAnnotation (fixture ''a1'' 4 9 ''quick'') \<lparr> item = None, dispatched = 0 \<rparr>)))
     = [fixture ''a1'' 4 9 ''quick'']"
proof -
  have h1: "\<exists>a\<in>set (parsed \<lparr> item = Some [fixture ''a1'' 4 9 ''quick''], dispatched = 1 \<rparr>).
      sameTuple (fixture ''a2'' 4 9 ''quick'') a"
    by (simp add: parsed_def sameTuple_def fixture_def)
  have h2: "sameTuple (fixture ''a1'' 4 9 ''quick'') (fixture ''a2'' 4 9 ''quick'')"
    by (simp add: sameTuple_def fixture_def)
  have h3: "\<not> (\<exists>a\<in>set (parsed \<lparr> item = None, dispatched = 0 \<rparr>). sameTuple (fixture ''a1'' 4 9 ''quick'') a)"
    by (simp add: parsed_def)
  show ?thesis
    using h1 h2 h3
      saveAnnotation_duplicate_guard [of "\<lparr> item = Some [fixture ''a1'' 4 9 ''quick''], dispatched = 1 \<rparr>"
        "fixture ''a2'' 4 9 ''quick''"]
      saveAnnotation_duplicate_guard [of "\<lparr> item = None, dispatched = 0 \<rparr>"
        "fixture ''a1'' 4 9 ''quick''" "fixture ''a2'' 4 9 ''quick''"]
    by blast
qed

section \<open>Removal is idempotent\<close>

lemma filter_absent: "ident \<notin> f ` set xs \<Longrightarrow> filter (\<lambda>a. f a \<noteq> ident) xs = xs"
  by (induction xs) auto

text \<open>
  Claim C9. Removing an annotation is idempotent. In the service, the item stored after
  \<open>deleteAnnotation\<close> ran twice for an id is the item stored after it ran once, and
  for an id that no stored annotation has, the annotation list read back is the one read
  before (each call dispatches its \<^verbatim>\<open>storage\<close> event all the same). The in-memory
  removal of the expiry timer behaves alike on the active set.
\<close>

theorem removal_idempotent:
  "item (deleteAnnotation ident (deleteAnnotation ident st)) = item (deleteAnnotation ident st) \<and>
   (ident \<notin> id' ` set (parsed st) \<longrightarrow> parsed (deleteAnnotation ident st) = parsed st) \<and>
   removeFromActiveSet ident (removeFromActiveSet ident prev) = removeFromActiveSet ident prev \<and>
   (ident \<notin> id' ` set prev \<longrightarrow> removeFromActiveSet ident prev = prev)"
  by (simp add: deleteAnnotation_def removeFromActiveSet_def filter_absent Let_def)

theorem removal_idempotent_witness:
  "''a2'' \<notin> id' ` set (parsed \<lparr> item = Some [fixture ''a1'' 4 9 ''quick''], dispatched = 0 \<rparr>) \<and>
   parsed (deleteAnnotation ''a2'' \<lparr> item = Some [fixture ''a1'' 4 9 ''quick''], dispatched = 0 \<rparr>)
     = [fixture ''a1'' 4 9 ''quick''] \<and>
   ''flash-1'' \<notin> id' ` set [Annotation.extend (fixture ''a1'' 4 9 ''quick'') (AppAnnotation.fields None)] \<and>
   removeFromActiveSet ''flash-1'' [Annotation.extend (fixture ''a1'' 4 9 ''quick'') (AppAnnotation.fields None)]
     = [Annotation.extend (fixture ''a1'' 4 9 ''quick'') (AppAnnotation.fields None)]"
proof -
  have h1: "''a2'' \<notin> id' ` set (parsed \<lparr> item = Some [fixture ''a1'' 4 9 ''quick''], dispatched = 0 \<rparr>)"
    by (simp add: parsed_def fixture_def)
  have h2: "''flash-1'' \<notin> id' ` set [Annotation.extend (fixture ''a1'' 4 9 ''quick'') (AppAnnotation.fields None)]"
    by (simp add: fixture_def Annotation.defs AppAnnotation.defs)
  show ?thesis
    using h1 h2
      removal_idempotent [of "''a2''" "\<lparr> item = Some [fixture ''a1'' 4 9 ''quick''], dispatched = 0 \<rparr>"
         "[Annotation.extend (fixture ''a1'' 4 9 ''quick'') (AppAnnotation.fields None)]"]
      removal_idempotent [of "''flash-1''" "\<lparr> item = Some [fixture ''a1'' 4 9 ''quick''], dispatched = 0 \<rparr>"
         "[Annotation.extend (fixture ''a1'' 4 9 ''quick'') (AppAnnotation.fields None)]"]
    by (simp add: parsed_def)
qed

section \<open>The frame of \<^verbatim>\<open>updateAnnotation\<close>\<close>

lemma findIndex_ge: "findIndex p xs \<ge> - 1"
  by (induction xs) (auto simp: Let_def)

lemma findIndex_none: "findIndex p xs = - 1 \<longleftrightarrow> (\<forall>x\<in>set xs. \<not> p x)"
proof (induction xs)
  case Nil
  then show ?case by simp
next
  case (Cons x xs)
  have "findIndex p xs \<noteq> - 1 \<Longrightarrow> findIndex p xs + 1 \<noteq> - 1"
    using findIndex_ge [of p xs] by arith
  with Cons show ?case by (auto simp: Let_def)
qed

lemma findIndex_first:
  "k < length xs \<Longrightarrow> p (xs ! k) \<Longrightarrow> (\<forall>j<k. \<not> p (xs ! j)) \<Longrightarrow> findIndex p xs = int k"
proof (induction xs arbitrary: k)
  case Nil
  then show ?case by simp
next
  case (Cons x xs)
  show ?case
  proof (cases k)
    case 0
    with Cons.prems show ?thesis by simp
  next
    case (Suc k')
    from Cons.prems Suc have "\<not> p x" by auto
    moreover from Cons.prems Suc have "k' < length xs" "p (xs ! k')" "\<forall>j<k'. \<not> p (xs ! j)"
      by auto
    then have "findIndex p xs = int k'" by (rule Cons.IH)
    ultimately show ?thesis using Suc by (simp add: Let_def)
  qed
qed

text \<open>
  Claim C10. \<open>updateAnnotation\<close> writes the comment of the first annotation whose id
  matches and nothing else: with no such annotation the store is returned as it was (no
  item written, no event); otherwise the stored list keeps its length, every other
  position keeps its annotation, and the annotation at the first matching position keeps
  its id, document, user, colour, range, timestamp and replies.
\<close>

theorem updateAnnotation_frame:
  "((\<forall>a\<in>set (parsed st). id' a \<noteq> ident) \<longrightarrow> updateAnnotation ident newComment st = st) \<and>
   (k < length (parsed st) \<and> id' (parsed st ! k) = ident \<and> (\<forall>j<k. id' (parsed st ! j) \<noteq> ident) \<longrightarrow>
      length (parsed (updateAnnotation ident newComment st)) = length (parsed st) \<and>
      (\<forall>j<length (parsed st). j \<noteq> k \<longrightarrow>
         parsed (updateAnnotation ident newComment st) ! j = parsed st ! j) \<and>
      parsed (updateAnnotation ident newComment st) ! k = (parsed st ! k)\<lparr> comment := newComment \<rparr> \<and>
      id' (parsed (updateAnnotation ident newComment st) ! k) = id' (parsed st ! k) \<and>
      documentId (parsed (updateAnnotation ident newComment st) ! k) = documentId (parsed st ! k) \<and>
      userId (parsed (updateAnnotation ident newComment st) ! k) = userId (parsed st ! k) \<and>
      userName (parsed (updateAnnotation ident newComment st) ! k) = userName (parsed st ! k) \<and>
      userColor (parsed (updateAnnotation ident newComment st) ! k) = userColor (parsed st ! k) \<and>
      range' (parsed (updateAnnotation ident newComment st) ! k) = range' (parsed st ! k) \<and>
      timestamp (parsed (updateAnnotation ident newComment st) ! k) = timestamp (parsed st ! k) \<and>
      replies (parsed (updateAnnotation ident newComment st) ! k) = replies (parsed st ! k))"
proof (intro conjI impI)
  assume "\<forall>a\<in>set (parsed st). id' a \<noteq> ident"
  then have "findIndex (\<lambda>a. id' a = ident) (parsed st) = - 1"
    by (simp add: findIndex_none)
  then show "updateAnnotation ident newComment st = st"
    by (simp add: updateAnnotation_def)
next
  assume a: "k < length (parsed st) \<and> id' (parsed st ! k) = ident \<and> (\<forall>j<k. id' (parsed st ! j) \<noteq> ident)"
  then have "findIndex (\<lambda>a. id' a = ident) (parsed st) = int k"
    by (intro findIndex_first) auto
  then have upd: "parsed (updateAnnotation ident newComment st)
      = (parsed st)[k := (parsed st ! k)\<lparr> comment := newComment \<rparr>]"
    by (simp add: updateAnnotation_def Let_def)
  from upd a show
    "length (parsed (updateAnnotation ident newComment st)) = length (parsed st)"
    "\<forall>j<length (parsed st). j \<noteq> k \<longrightarrow>
         parsed (updateAnnotation ident newComment st) ! j = parsed st ! j"
    "parsed (updateAnnotation ident newComment st) ! k = (parsed st ! k)\<lparr> comment := newComment \<rparr>"
    "id' (parsed (updateAnnotation ident newComment st) ! k) = id' (parsed st ! k)"
    "documentId (parsed (updateAnnotation ident newComment st) ! k) = documentId (parsed st ! k)"
    "userId (parsed (updateAnnotation ident newComment st) ! k) = userId (parsed st ! k)"
    "userName (parsed (updateAnnotation ident newComment st) ! k) = userName (parsed st ! k)"
    "userColor (parsed (updateAnnotation ident newComment st) ! k) = userColor (parsed st ! k)"
    "range' (parsed (updateAnnotation ident newComment st) ! k) = range' (parsed st ! k)"
    "timestamp (parsed (updateAnnotation ident newComment st) ! k) = timestamp (parsed st ! k)"
    "replies (parsed (updateAnnotation ident newComment st) ! k) = replies (parsed st ! k)"
    by simp_all
qed

theorem updateAnnotation_frame_witness:
  "''a3'' \<notin> id' ` set (parsed \<lparr> item = Some [fixture ''a1'' 0 3 ''The'', fixture ''a2'' 4 9 ''quick''], dispatched = 2 \<rparr>) \<and>
   updateAnnotation ''a3'' ''new'' \<lparr> item = Some [fixture ''a1'' 0 3 ''The'', fixture ''a2'' 4 9 ''quick''], dispatched = 2 \<rparr>
     = \<lparr> item = Some [fixture ''a1'' 0 3 ''The'', fixture ''a2'' 4 9 ''quick''], dispatched = 2 \<rparr> \<and>
   (1::nat) < length (parsed \<lparr> item = Some [fixture ''a1'' 0 3 ''The'', fixture ''a2'' 4 9 ''quick''], dispatched = 2 \<rparr>) \<and>
   parsed (updateAnnotation ''a2'' ''new'' \<lparr> item = Some [fixture ''a1'' 0 3 ''The'', fixture ''a2'' 4 9 ''quick''], dispatched = 2 \<rparr>) ! 0
     = fixture ''a1'' 0 3 ''The'' \<and>
   parsed (updateAnnotation ''a2'' ''new'' \<lparr> item = Some [fixture ''a1'' 0 3 ''The'', fixture ''a2'' 4 9 ''quick''], dispatched = 2 \<rparr>) ! 1
     = (fixture ''a2'' 4 9 ''quick'')\<lparr> comment := ''new'' \<rparr>"
proof -
  let ?st = "\<lparr> item = Some [fixture ''a1'' 0 3 ''The'', fixture ''a2'' 4 9 ''quick''], dispatched = 2 \<rparr>"
  have p: "parsed ?st = [fixture ''a1'' 0 3 ''The'', fixture ''a2'' 4 9 ''quick'']"
    by (simp add: parsed_def)
  have h1: "\<forall>a\<in>set (parsed ?st). id' a \<noteq> ''a3''"
    unfolding p by (simp add: fixture_def)
  have h2: "1 < length (parsed ?st) \<and> id' (parsed ?st ! 1) = ''a2'' \<and> (\<forall>j<1. id' (parsed ?st ! j) \<noteq> ''a2'')"
    unfolding p by (simp add: fixture_def)
  from updateAnnotation_frame [where st = ?st and ident = "''a3''" and newComment = "''new''"] h1
  have c1: "updateAnnotation ''a3'' ''new'' ?st = ?st" by blast
  from updateAnnotation_frame [where st = ?st and ident = "''a2''" and newComment = "''new''" and k = 1] h2
  have c2: "(\<forall>j<length (parsed ?st). j \<noteq> 1 \<longrightarrow>
         parsed (updateAnnotation ''a2'' ''new'' ?st) ! j = parsed ?st ! j) \<and>
      parsed (updateAnnotation ''a2'' ''new'' ?st) ! 1 = (parsed ?st ! 1)\<lparr> comment := ''new'' \<rparr>"
    by blast
  then have "parsed (updateAnnotation ''a2'' ''new'' ?st) ! 0 = parsed ?st ! 0"
    by (simp add: p)
  moreover from h1 have "''a3'' \<notin> id' ` set (parsed ?st)" by auto
  ultimately show ?thesis using c1 c2 by (simp add: p)
qed

end
